theory Spec2Isabelle
  imports Main
begin

section \<open>Values and dictionaries\<close>

text \<open>
  The messages of \<^verbatim>\<open>target_csv.py\<close> are JSON documents. \<^verbatim>\<open>singer.parse_message\<close> reads
  them with \<^verbatim>\<open>use_decimal=True\<close>: a number is a Python \<^verbatim>\<open>int\<close> or a \<^verbatim>\<open>Decimal\<close>
  (coefficient and exponent). JSON \<^verbatim>\<open>null\<close> is Python's \<^verbatim>\<open>None\<close>. A Python \<^verbatim>\<open>dict\<close>
  keeps insertion order, so an object is a list of key-value pairs.
\<close>

datatype json =
    JNull
  | JBool bool
  | JInt int
  | JDec int int
  | JStr string
  | JList "json list"
  | JObj "(string \<times> json) list"

type_synonym 'v dict = "(string \<times> 'v) list"

text \<open>
  \<^verbatim>\<open>d[k] = v\<close>: an existing key keeps its position and takes the new value, a new key
  goes to the end.
\<close>

fun dict_set :: "'v dict \<Rightarrow> string \<Rightarrow> 'v \<Rightarrow> 'v dict" where
  "dict_set [] k v = [(k, v)]"
| "dict_set ((k', v') # d) k v =
     (if k' = k then (k, v) # d else (k', v') # dict_set d k v)"

text \<open>\<^verbatim>\<open>dict(items)\<close>: the pairs are inserted from left to right.\<close>

definition dict_of_items :: "(string \<times> 'v) list \<Rightarrow> 'v dict" where
  "dict_of_items items = foldl (\<lambda>d (k, v). dict_set d k v) [] items"

text \<open>\<^verbatim>\<open>d.keys()\<close> and \<^verbatim>\<open>d.get(key, default)\<close>.\<close>

definition dict_keys :: "'v dict \<Rightarrow> string list" where
  "dict_keys d = map fst d"

definition dict_get :: "'v dict \<Rightarrow> string \<Rightarrow> 'v \<Rightarrow> 'v" where
  "dict_get d key restval = (case map_of d key of Some v \<Rightarrow> v | None \<Rightarrow> restval)"

section \<open>The environment of a run\<close>

text \<open>
  Three things the program takes from outside its own source: Python's builtin
  \<^verbatim>\<open>str\<close> (applied to lists by \<^verbatim>\<open>flatten\<close>, and by the csv writer to every field that
  is neither a string nor \<^verbatim>\<open>None\<close>), the verdict of
  \<^verbatim>\<open>Draft4Validator(schema).validate(record)\<close>, and the date that
  \<^verbatim>\<open>datetime.now().strftime("%Y-%m-%d")\<close> returns at the start of the run.
\<close>

record env =
  str_of :: "json \<Rightarrow> string"
  conforms :: "json \<Rightarrow> json \<Rightarrow> bool"
  today :: string

section \<open>flatten\<close>

text \<open>
  \<^verbatim>\<open>new_key = parent_key + sep + k if parent_key else k\<close>: an empty \<^verbatim>\<open>parent_key\<close> is
  falsy.
\<close>

definition new_key :: "string \<Rightarrow> string \<Rightarrow> string \<Rightarrow> string" where
  "new_key parent_key sep k = (if parent_key \<noteq> [] then parent_key @ sep @ k else k)"

text \<open>\<^verbatim>\<open>str(v) if type(v) is list else v\<close>\<close>

definition str_if_list :: "(json \<Rightarrow> string) \<Rightarrow> json \<Rightarrow> json" where
  "str_if_list str v = (case v of JList xs \<Rightarrow> JStr (str v) | _ \<Rightarrow> v)"

text \<open>
  The loop of \<^verbatim>\<open>flatten\<close> collects \<^verbatim>\<open>items\<close>; for a nested mapping it extends them with
  the items of the recursive call's result, which is itself a \<^verbatim>\<open>dict\<close>.
\<close>

function flatten_items :: "(json \<Rightarrow> string) \<Rightarrow> json dict \<Rightarrow> string \<Rightarrow> string \<Rightarrow> (string \<times> json) list" where
  "flatten_items str [] parent_key sep = []"
| "flatten_items str ((k, v) # d) parent_key sep =
     (case v of
        JObj m \<Rightarrow> dict_of_items (flatten_items str m (new_key parent_key sep k) sep)
      | _ \<Rightarrow> [(new_key parent_key sep k, str_if_list str v)])
     @ flatten_items str d parent_key sep"
  by pat_completeness auto
termination
  by (relation "measure (\<lambda>(str, d, parent_key, sep). size_list (size_prod (\<lambda>_. 0) size) d)") auto

definition flatten :: "(json \<Rightarrow> string) \<Rightarrow> json dict \<Rightarrow> string \<Rightarrow> string \<Rightarrow> json dict" where
  "flatten str d parent_key sep = dict_of_items (flatten_items str d parent_key sep)"

section \<open>Messages\<close>

text \<open>
  One element of the input is what \<^verbatim>\<open>singer.parse_message(message).asdict()\<close> makes of a
  line: a message of one of the three types the loop handles, a message of another type
  (the \<^verbatim>\<open>else\<close> branch), or a line on which parsing raises
  \<^verbatim>\<open>json.decoder.JSONDecodeError\<close>. A \<^verbatim>\<open>RECORD\<close> carries \<^verbatim>\<open>stream\<close> and \<^verbatim>\<open>record\<close>, a
  \<^verbatim>\<open>STATE\<close> carries \<^verbatim>\<open>value\<close>, a \<^verbatim>\<open>SCHEMA\<close> carries \<^verbatim>\<open>stream\<close>, \<^verbatim>\<open>schema\<close> and
  \<^verbatim>\<open>key_properties\<close>.
\<close>

datatype message =
    RECORD string "json dict"
  | STATE json
  | SCHEMA string json json
  | OTHER string
  | UNPARSEABLE

datatype error =
    JSONDecodeError
  | MissingSchema string
  | KeyError string
  | ValidationError
  | FileNotFoundError string
  | StopIteration

section \<open>Files\<close>

text \<open>
  An output file is the list of the CSV rows it holds, a row being the list of its
  fields as text. A file that does not exist is \<open>None\<close>; a file of size zero holds no
  row, and every row the writer appends ends with the line terminator, so a file with a
  row has a positive size. \<^verbatim>\<open>csv.reader\<close> hands the rows back in order.

  The file system is a map from path strings to files. Two paths are the same file only
  when they are the same string, and \<^verbatim>\<open>open\<close> never fails. On disk neither is true of
  every path: \<^verbatim>\<open>out/a\<close> and \<^verbatim>\<open>out/./a\<close> are one file, and \<^verbatim>\<open>out/x/y\<close> cannot be opened
  when \<^verbatim>\<open>out/x\<close> is missing. Both hold of the paths that \<open>plain_output\<close> below
  accepts, in an output folder that exists and can be written to, which section 6 of the
  specification assumes, on a file system that tells names apart byte by byte. A statement about one step at one path does not depend on
  either; a statement about several streams is made for such paths only.
\<close>

type_synonym row = "string list"
type_synonym filesystem = "string \<rightharpoonup> row list"

text \<open>\<^verbatim>\<open>os.path.join(a, b)\<close> of \<^verbatim>\<open>posixpath\<close>.\<close>

definition path_join :: "string \<Rightarrow> string \<Rightarrow> string" where
  "path_join a b =
     (if (case b of [] \<Rightarrow> False | c # _ \<Rightarrow> c = CHR ''/'') then b
      else if a = [] \<or> last a = CHR ''/'' then a @ b
      else a @ ''/'' @ b)"

text \<open>
  \<^verbatim>\<open>filename = o["stream"] + f"--{date}.csv"\<close>, then
  \<^verbatim>\<open>os.path.join(output_folder, filename)\<close>.
\<close>

definition output_filename :: "env \<Rightarrow> string \<Rightarrow> string \<Rightarrow> string" where
  "output_filename E output_folder stream =
     path_join output_folder (stream @ ''--'' @ today E @ ''.csv'')"

text \<open>
  A name that POSIX takes for an entry of a directory: no separator, no NUL, at most 255
  bytes (\<^verbatim>\<open>NAME_MAX\<close>). The output of a stream is plain when its file name is one and
  its path stays below 4096 bytes (\<^verbatim>\<open>PATH_MAX\<close>): the path then names an entry of the
  output folder itself, distinct streams name distinct entries, and no directory other
  than the output folder is needed to open it.
\<close>

definition plain_file_name :: "string \<Rightarrow> bool" where
  "plain_file_name name =
     (CHR ''/'' \<notin> set name \<and> CHR 0x00 \<notin> set name \<and> length name \<le> 255)"

definition plain_output :: "env \<Rightarrow> string \<Rightarrow> string \<Rightarrow> bool" where
  "plain_output E output_folder stream =
     (plain_file_name (stream @ ''--'' @ today E @ ''.csv'')
      \<and> length (output_filename E output_folder stream) < 4096)"

text \<open>\<^verbatim>\<open>(not os.path.isfile(filename)) or os.stat(filename).st_size == 0\<close>\<close>

definition file_is_empty :: "filesystem \<Rightarrow> string \<Rightarrow> bool" where
  "file_is_empty fs filename = (case fs filename of None \<Rightarrow> True | Some rows \<Rightarrow> rows = [])"

text \<open>\<^verbatim>\<open>open(filename, "r")\<close>, then \<^verbatim>\<open>next(reader)\<close>.\<close>

definition next_row :: "filesystem \<Rightarrow> string \<Rightarrow> error + row" where
  "next_row fs filename =
     (case fs filename of
        None \<Rightarrow> Inl (FileNotFoundError filename)
      | Some [] \<Rightarrow> Inl StopIteration
      | Some (first_line # _) \<Rightarrow> Inr first_line)"

text \<open>
  The csv writer's text of a field: a string as it is, \<^verbatim>\<open>None\<close> as the empty string,
  anything else through \<^verbatim>\<open>str\<close>.
\<close>

definition csv_field :: "(json \<Rightarrow> string) \<Rightarrow> json \<Rightarrow> string" where
  "csv_field str v = (case v of JStr s \<Rightarrow> s | JNull \<Rightarrow> [] | _ \<Rightarrow> str v)"

text \<open>
  \<^verbatim>\<open>csv.DictWriter\<close> with \<^verbatim>\<open>extrasaction="ignore"\<close> and the default \<^verbatim>\<open>restval=""\<close>:
  \<^verbatim>\<open>writerow\<close> writes \<^verbatim>\<open>rowdict.get(key, restval)\<close> for each key of the field names;
  \<^verbatim>\<open>writeheader\<close> is \<^verbatim>\<open>writerow(dict(zip(fieldnames, fieldnames)))\<close>.
\<close>

definition writerow :: "(json \<Rightarrow> string) \<Rightarrow> string list \<Rightarrow> json dict \<Rightarrow> row" where
  "writerow str fieldnames rowdict =
     map (\<lambda>key. csv_field str (dict_get rowdict key (JStr []))) fieldnames"

definition writeheader :: "(json \<Rightarrow> string) \<Rightarrow> string list \<Rightarrow> row" where
  "writeheader str fieldnames =
     writerow str fieldnames (dict_of_items (zip fieldnames (map JStr fieldnames)))"

text \<open>\<^verbatim>\<open>open(filename, "a")\<close> creates a missing file; the rows go to its end.\<close>

definition append_rows :: "filesystem \<Rightarrow> string \<Rightarrow> row list \<Rightarrow> filesystem" where
  "append_rows fs filename rows =
     fs(filename \<mapsto> (case fs filename of None \<Rightarrow> [] | Some old \<Rightarrow> old) @ rows)"

section \<open>persist_messages\<close>

text \<open>The local variables of \<^verbatim>\<open>persist_messages\<close>; \<^verbatim>\<open>None\<close> is \<open>JNull\<close>.\<close>

record run_state =
  state :: json
  schemas :: "string \<rightharpoonup> json"
  key_properties :: "string \<rightharpoonup> json"
  headers :: "string \<rightharpoonup> string list"
  validators :: "string \<rightharpoonup> json"

definition initial :: run_state where
  "initial = \<lparr>state = JNull, schemas = Map.empty, key_properties = Map.empty,
              headers = Map.empty, validators = Map.empty\<rparr>"

text \<open>
  Lines 74 to 84: the header comes from the file when the stream has none stored and the
  file is not empty, and from the keys of the flattened record in every other case.
\<close>

definition choose_header :: "run_state \<Rightarrow> filesystem \<Rightarrow> string \<Rightarrow> string \<Rightarrow> json dict \<Rightarrow> error + string list" where
  "choose_header L fs stream filename flattened_record =
     (if headers L stream = None \<and> \<not> file_is_empty fs filename then
        (case next_row fs filename of
           Inl e \<Rightarrow> Inl e
         | Inr first_line \<Rightarrow>
             Inr (if first_line \<noteq> [] then first_line else dict_keys flattened_record))
      else Inr (dict_keys flattened_record))"

text \<open>The \<^verbatim>\<open>RECORD\<close> branch, lines 57 to 99.\<close>

definition persist_record ::
  "env \<Rightarrow> string \<Rightarrow> run_state \<Rightarrow> filesystem \<Rightarrow> string \<Rightarrow> json dict \<Rightarrow> filesystem \<times> (error + run_state)" where
  "persist_record E output_folder L fs stream rec =
     (if schemas L stream = None then (fs, Inl (MissingSchema stream))
      else case validators L stream of
        None \<Rightarrow> (fs, Inl (KeyError stream))
      | Some validator \<Rightarrow>
          if \<not> conforms E validator (JObj rec) then (fs, Inl ValidationError)
          else
            let filename = output_filename E output_folder stream;
                empty = file_is_empty fs filename;
                flattened_record = flatten (str_of E) rec [] ''__''
            in case choose_header L fs stream filename flattened_record of
                 Inl e \<Rightarrow> (fs, Inl e)
               | Inr h \<Rightarrow>
                   (append_rows fs filename
                      ((if empty then [writeheader (str_of E) h] else [])
                       @ [writerow (str_of E) h flattened_record]),
                    Inr (L\<lparr>headers := (headers L)(stream \<mapsto> h), state := JNull\<rparr>)))"

text \<open>One turn of the loop over \<^verbatim>\<open>messages\<close>.\<close>

fun persist_message ::
  "env \<Rightarrow> string \<Rightarrow> run_state \<Rightarrow> filesystem \<Rightarrow> message \<Rightarrow> filesystem \<times> (error + run_state)" where
  "persist_message E output_folder L fs UNPARSEABLE = (fs, Inl JSONDecodeError)"
| "persist_message E output_folder L fs (RECORD stream rec) =
     persist_record E output_folder L fs stream rec"
| "persist_message E output_folder L fs (STATE v) = (fs, Inr (L\<lparr>state := v\<rparr>))"
| "persist_message E output_folder L fs (SCHEMA stream schema kp) =
     (fs, Inr (L\<lparr>schemas := (schemas L)(stream \<mapsto> schema),
                  validators := (validators L)(stream \<mapsto> schema),
                  key_properties := (key_properties L)(stream \<mapsto> kp)\<rparr>))"
| "persist_message E output_folder L fs (OTHER t) = (fs, Inr L)"

fun run_loop ::
  "env \<Rightarrow> string \<Rightarrow> run_state \<Rightarrow> filesystem \<Rightarrow> message list \<Rightarrow> filesystem \<times> (error + run_state)" where
  "run_loop E output_folder L fs [] = (fs, Inr L)"
| "run_loop E output_folder L fs (m # ms) =
     (case persist_message E output_folder L fs m of
        (fs', Inl e) \<Rightarrow> (fs', Inl e)
      | (fs', Inr L') \<Rightarrow> run_loop E output_folder L' fs' ms)"

text \<open>
  \<^verbatim>\<open>persist_messages(messages, output_folder)\<close>, run on the file system \<open>fs\<close>: the file
  system it leaves, and the exception raised or the \<^verbatim>\<open>state\<close> returned.
\<close>

definition persist_messages ::
  "env \<Rightarrow> filesystem \<Rightarrow> message list \<Rightarrow> string \<Rightarrow> filesystem \<times> (error + json)" where
  "persist_messages E fs messages output_folder =
     (case run_loop E output_folder initial fs messages of
        (fs', Inl e) \<Rightarrow> (fs', Inl e)
      | (fs', Inr L) \<Rightarrow> (fs', Inr (state L)))"

section \<open>Checkpoints, declared schemas, key properties\<close>

text \<open>
  The checkpoint the specification describes: the value of the last \<^verbatim>\<open>STATE\<close> message
  that no \<^verbatim>\<open>RECORD\<close> message follows, and none (\<open>JNull\<close>) when there is no such message.
\<close>

definition is_record :: "message \<Rightarrow> bool" where
  "is_record m = (case m of RECORD _ _ \<Rightarrow> True | _ \<Rightarrow> False)"

definition after_last_record :: "message list \<Rightarrow> message list" where
  "after_last_record messages = rev (takeWhile (\<lambda>m. \<not> is_record m) (rev messages))"

fun state_values :: "message list \<Rightarrow> json list" where
  "state_values [] = []"
| "state_values (STATE v # ms) = v # state_values ms"
| "state_values (_ # ms) = state_values ms"

definition checkpoint_of :: "message list \<Rightarrow> json" where
  "checkpoint_of messages =
     (let vs = state_values (after_last_record messages)
      in if vs = [] then JNull else last vs)"

text \<open>The checkpoint of a run that starts with the value \<open>s0\<close> in \<^verbatim>\<open>state\<close>.\<close>

definition checkpoint_from :: "json \<Rightarrow> message list \<Rightarrow> json" where
  "checkpoint_from s0 messages =
     (let vs = state_values (after_last_record messages)
      in if vs = [] then (if list_ex is_record messages then JNull else s0) else last vs)"

text \<open>
  The schema declared for a stream by a sequence of messages: that of the last
  \<^verbatim>\<open>SCHEMA\<close> message for the stream.
\<close>

fun schemas_for :: "string \<Rightarrow> message list \<Rightarrow> json list" where
  "schemas_for stream [] = []"
| "schemas_for stream (SCHEMA s schema kp # ms) =
     (if s = stream then schema # schemas_for stream ms else schemas_for stream ms)"
| "schemas_for stream (_ # ms) = schemas_for stream ms"

definition declared_schema :: "message list \<Rightarrow> string \<Rightarrow> json option" where
  "declared_schema messages stream =
     (let xs = schemas_for stream messages in if xs = [] then None else Some (last xs))"

text \<open>Two messages that differ at most in the \<^verbatim>\<open>key_properties\<close> of a \<^verbatim>\<open>SCHEMA\<close>.\<close>

fun same_but_key_properties :: "message \<Rightarrow> message \<Rightarrow> bool" where
  "same_but_key_properties (SCHEMA s schema kp) (SCHEMA s' schema' kp') = (s = s' \<and> schema = schema')"
| "same_but_key_properties m m' = (m = m')"

text \<open>What a caller sees of a run: the files, and the exception or the returned state.\<close>

definition observable :: "filesystem \<times> (error + run_state) \<Rightarrow> filesystem \<times> (error + json)" where
  "observable r = (case r of (fs', Inl e) \<Rightarrow> (fs', Inl e) | (fs', Inr L) \<Rightarrow> (fs', Inr (state L)))"

section \<open>A concrete environment\<close>

text \<open>
  An environment for running the definitions on concrete input: every list prints as
  \<^verbatim>\<open>[]\<close>, the empty schema accepts every record and any other schema rejects every
  record, and the run starts on 2024-01-01.
\<close>

definition example_env :: env where
  "example_env = \<lparr>str_of = (\<lambda>v. ''[]''), conforms = (\<lambda>schema v. schema = JObj []), today = ''2024-01-01''\<rparr>"

section \<open>The flattener of the specification\<close>

text \<open>
  The flattener as section 4.2 of the specification words it: a nested mapping is
  flattened recursively and merged in with its keys prefixed by the key and the
  separator \<^verbatim>\<open>__\<close>, a list becomes its string, any other value passes through, and the
  keys come in the order of iteration.
\<close>

function flatten_spec_items :: "(json \<Rightarrow> string) \<Rightarrow> json dict \<Rightarrow> (string \<times> json) list" where
  "flatten_spec_items str [] = []"
| "flatten_spec_items str ((k, v) # d) =
     (case v of
        JObj m \<Rightarrow> map (\<lambda>(k', v'). (k @ ''__'' @ k', v')) (dict_of_items (flatten_spec_items str m))
      | JList xs \<Rightarrow> [(k, JStr (str v))]
      | _ \<Rightarrow> [(k, v)])
     @ flatten_spec_items str d"
  by pat_completeness auto
termination
  by (relation "measure (\<lambda>(str, d). size_list (size_prod (\<lambda>_. 0) size) d)") auto

definition flatten_spec :: "(json \<Rightarrow> string) \<Rightarrow> json dict \<Rightarrow> json dict" where
  "flatten_spec str d = dict_of_items (flatten_spec_items str d)"

section \<open>Valid inputs and the rows they produce\<close>



text \<open>
  A valid input: every line parses, every \<^verbatim>\<open>RECORD\<close> comes after a \<^verbatim>\<open>SCHEMA\<close> for its
  stream, and its record conforms to the schema declared last (\<open>declared\<close> holds the
  schemas declared so far).
\<close>

fun valid_input :: "env \<Rightarrow> (string \<rightharpoonup> json) \<Rightarrow> message list \<Rightarrow> bool" where
  "valid_input E declared [] = True"
| "valid_input E declared (SCHEMA s schema kp # ms) = valid_input E (declared(s \<mapsto> schema)) ms"
| "valid_input E declared (RECORD s rec # ms) =
     ((case declared s of None \<Rightarrow> False | Some schema \<Rightarrow> conforms E schema (JObj rec))
      \<and> valid_input E declared ms)"
| "valid_input E declared (UNPARSEABLE # ms) = False"
| "valid_input E declared (_ # ms) = valid_input E declared ms"




lemmas eval_defs = persist_messages_def initial_def persist_record_def Let_def append_rows_def
  choose_header_def file_is_empty_def next_row_def output_filename_def path_join_def
  flatten_def dict_of_items_def writerow_def writeheader_def dict_get_def dict_keys_def
  csv_field_def new_key_def str_if_list_def example_env_def flatten_spec_def

section \<open>The loop\<close>

lemma run_loop_append:
  "run_loop E out L fs (xs @ ys) =
     (case run_loop E out L fs xs of
        (fs', Inl e) \<Rightarrow> (fs', Inl e)
      | (fs', Inr L') \<Rightarrow> run_loop E out L' fs' ys)"
  by (induction xs arbitrary: L fs) (auto split: prod.splits sum.splits)

lemma persist_record_state:
  "persist_record E out L fs stream rec = (fs', Inr L') \<Longrightarrow> state L' = JNull"
  by (auto simp: persist_record_def Let_def split: if_splits option.splits sum.splits)

lemma state_values_append: "state_values (xs @ ys) = state_values xs @ state_values ys"
  by (induction xs rule: state_values.induct) auto

lemma schemas_for_append: "schemas_for stream (xs @ ys) = schemas_for stream xs @ schemas_for stream ys"
  by (induction stream xs rule: schemas_for.induct) auto

lemma persist_record_schemas:
  "persist_record E out L fs stream rec = (fs', Inr L') \<Longrightarrow>
     schemas L' = schemas L \<and> validators L' = validators L \<and> key_properties L' = key_properties L"
  by (auto simp: persist_record_def Let_def split: if_splits option.splits sum.splits)

lemma run_loop_schemas:
  "run_loop E out L fs messages = (fs', Inr L') \<Longrightarrow>
     schemas L' stream = (if schemas_for stream messages = [] then schemas L stream else Some (last (schemas_for stream messages))) \<and>
     validators L' stream = (if schemas_for stream messages = [] then validators L stream else Some (last (schemas_for stream messages)))"
proof (induction messages arbitrary: fs' L' rule: rev_induct)
  case Nil
  then show ?case by simp
next
  case (snoc m ms)
  from snoc.prems obtain fs1 L1 where
    pre: "run_loop E out L fs ms = (fs1, Inr L1)" and
    step: "persist_message E out L1 fs1 m = (fs', Inr L')"
    by (auto simp: run_loop_append split: prod.splits sum.splits)
  note ih = snoc.IH [OF pre]
  show ?case
  proof (cases m)
    case (RECORD s r)
    with step ih show ?thesis by (auto simp: schemas_for_append dest: persist_record_schemas)
  next
    case (SCHEMA s sch kp)
    with step ih show ?thesis by (auto simp: schemas_for_append)
  qed (use step ih in \<open>auto simp: schemas_for_append\<close>)
qed

lemma run_loop_declared:
  assumes "run_loop E out initial fs messages = (fs', Inr L')"
  shows "schemas L' stream = declared_schema messages stream"
    and "validators L' stream = declared_schema messages stream"
  using run_loop_schemas [OF assms, of stream]
  by (auto simp: declared_schema_def initial_def Let_def)

lemma map_of_dict_set: "map_of (dict_set d k v) = (map_of d)(k \<mapsto> v)"
  by (induction d k v rule: dict_set.induct) auto

lemma map_of_foldl_dict_set:
  "map_of (foldl (\<lambda>d (k, v). dict_set d k v) acc items) = map_of acc ++ map_of (rev items)"
  by (induction items arbitrary: acc) (auto simp: map_of_dict_set map_add_upd_left  split_beta)

lemma map_of_dict_of_items: "map_of (dict_of_items items) = map_of (rev items)"
  by (simp add: dict_of_items_def map_of_foldl_dict_set)

lemma writeheader_fieldnames: "writeheader str fieldnames = fieldnames"
proof -
  have "zip fieldnames (map JStr fieldnames) = map (\<lambda>k. (k, JStr k)) fieldnames"
    by (induction fieldnames) auto
  moreover have "map_of (rev (map (\<lambda>k. (k, JStr k)) ks)) key =
      (if key \<in> set ks then Some (JStr key) else None)" for ks key
    by (induction ks) (auto simp: map_add_def split: option.splits)
  ultimately have "key \<in> set fieldnames \<Longrightarrow>
      map_of (dict_of_items (zip fieldnames (map JStr fieldnames))) key = Some (JStr key)" for key
    by (simp add: map_of_dict_of_items)
  then show ?thesis
    by (simp add: writeheader_def writerow_def dict_get_def csv_field_def map_idI)
qed

lemma choose_header_total:
  "\<exists>h. choose_header L fs stream filename flat = Inr h"
  by (auto simp: choose_header_def file_is_empty_def next_row_def split: option.splits list.splits)

lemma persist_record_headers:
  "persist_record E out L fs stream rec = (fs', Inr L') \<Longrightarrow> s \<noteq> stream \<Longrightarrow> headers L' s = headers L s"
  by (auto simp: persist_record_def Let_def split: if_splits option.splits sum.splits)

lemma run_loop_headers_unset:
  "run_loop E out L fs messages = (fs', Inr L') \<Longrightarrow> \<forall>rec. RECORD stream rec \<notin> set messages \<Longrightarrow>
     headers L' stream = headers L stream"
proof (induction messages arbitrary: L fs)
  case Nil
  then show ?case by simp
next
  case (Cons m ms)
  from Cons.prems(1) obtain fs1 L1 where
    step: "persist_message E out L fs m = (fs1, Inr L1)" and
    rest: "run_loop E out L1 fs1 ms = (fs', Inr L')"
    by (auto split: prod.splits sum.splits)
  from Cons.prems(2) have "\<forall>rec. RECORD stream rec \<notin> set ms" by simp
  with Cons.IH [OF rest] have ih: "headers L' stream = headers L1 stream" by simp
  from step Cons.prems(2) have "headers L1 stream = headers L stream"
    by (cases m) (auto dest: persist_record_headers)
  with ih show ?case by simp
qed

lemma persist_record_kp:
  "persist_record E out (L\<lparr>key_properties := k\<rparr>) fs stream rec =
     (case persist_record E out L fs stream rec of
        (fs', Inl e) \<Rightarrow> (fs', Inl e)
      | (fs', Inr L') \<Rightarrow> (fs', Inr (L'\<lparr>key_properties := k\<rparr>)))"
  by (simp add: persist_record_def choose_header_def Let_def split: option.splits sum.splits)

lemma persist_message_kp:
  assumes "same_but_key_properties m m'"
  shows "\<exists>k'. persist_message E out (L\<lparr>key_properties := k\<rparr>) fs m' =
     (case persist_message E out L fs m of
        (fs', Inl e) \<Rightarrow> (fs', Inl e)
      | (fs', Inr L') \<Rightarrow> (fs', Inr (L'\<lparr>key_properties := k'\<rparr>)))"
proof (cases m)
  case (SCHEMA s sch kp)
  with assms obtain kp' where "m' = SCHEMA s sch kp'" by (cases m') auto
  with SCHEMA show ?thesis by (auto intro: exI [of _ "k(s \<mapsto> kp')"])
next
  case (RECORD s r)
  with assms have "m' = RECORD s r" by simp
  with RECORD show ?thesis by (auto simp: persist_record_kp intro: exI [of _ k])
next
  case (STATE v)
  with assms have "m' = STATE v" by simp
  with STATE show ?thesis by (auto intro: exI [of _ k])
next
  case (OTHER t)
  with assms have "m' = OTHER t" by simp
  with OTHER show ?thesis by (auto intro: exI [of _ k])
next
  case UNPARSEABLE
  with assms have "m' = UNPARSEABLE" by simp
  with UNPARSEABLE show ?thesis by simp
qed

lemma run_loop_kp:
  "list_all2 same_but_key_properties ms ms' \<Longrightarrow>
     observable (run_loop E out (L\<lparr>key_properties := k\<rparr>) fs ms') = observable (run_loop E out L fs ms)"
proof (induction ms ms' arbitrary: L k fs rule: list_all2_induct)
  case Nil
  then show ?case by (simp add: observable_def)
next
  case (Cons m ms m' ms')
  from persist_message_kp [OF Cons.hyps(1), where E=E and out=out and L=L and k=k and fs=fs] obtain k' where
    step: "persist_message E out (L\<lparr>key_properties := k\<rparr>) fs m' =
     (case persist_message E out L fs m of
        (fs', Inl e) \<Rightarrow> (fs', Inl e)
      | (fs', Inr L') \<Rightarrow> (fs', Inr (L'\<lparr>key_properties := k'\<rparr>)))" by blast
  show ?case
  proof (cases "persist_message E out L fs m")
    case (Pair fs1 r)
    show ?thesis
    proof (cases r)
      case (Inl e)
      with Pair step show ?thesis by (simp add: observable_def)
    next
      case (Inr L1)
      with Pair step Cons.IH [where L=L1 and k=k' and fs=fs1] show ?thesis by simp
    qed
  qed
qed

lemma run_loop_state:
  "run_loop E out L fs messages = (fs', Inr L') \<Longrightarrow> state L' = checkpoint_from (state L) messages"
proof (induction messages arbitrary: fs' L' rule: rev_induct)
  case Nil
  then show ?case by (simp add: checkpoint_from_def after_last_record_def)
next
  case (snoc m ms)
  from snoc.prems obtain fs1 L1 where
    pre: "run_loop E out L fs ms = (fs1, Inr L1)" and
    step: "persist_message E out L1 fs1 m = (fs', Inr L')"
    by (auto simp: run_loop_append split: prod.splits sum.splits)
  have ih: "state L1 = checkpoint_from (state L) ms" using snoc.IH [OF pre] .
  show ?case
  proof (cases m)
    case (RECORD s r)
    with step have "state L' = JNull" by (simp add: persist_record_state)
    with RECORD show ?thesis by (simp add: checkpoint_from_def after_last_record_def is_record_def)
  next
    case (STATE v)
    with step show ?thesis
      by (auto simp: checkpoint_from_def after_last_record_def is_record_def state_values_append Let_def)
  next
    case (SCHEMA s sch kp)
    with step ih show ?thesis
      by (auto simp: checkpoint_from_def after_last_record_def is_record_def state_values_append Let_def)
  next
    case (OTHER t)
    with step ih show ?thesis
      by (auto simp: checkpoint_from_def after_last_record_def is_record_def state_values_append Let_def)
  next
    case UNPARSEABLE
    with step show ?thesis by simp
  qed
qed

section \<open>Dictionaries and the flattener\<close>

lemma dict_set_rename:
  "inj f \<Longrightarrow> dict_set (map (\<lambda>(k, v). (f k, v)) d) (f k) v = map (\<lambda>(k, v). (f k, v)) (dict_set d k v)"
  by (induction d k v rule: dict_set.induct) (auto dest: injD)

lemma foldl_dict_set_rename:
  "inj f \<Longrightarrow>
   foldl (\<lambda>d (k, v). dict_set d k v) (map (\<lambda>(k, v). (f k, v)) acc) (map (\<lambda>(k, v). (f k, v)) items)
   = map (\<lambda>(k, v). (f k, v)) (foldl (\<lambda>d (k, v). dict_set d k v) acc items)"
proof (induction items arbitrary: acc)
  case Nil
  then show ?case by simp
next
  case (Cons x xs)
  obtain k v where x: "x = (k, v)" by (cases x)
  from Cons.prems have "dict_set (map (\<lambda>(k, v). (f k, v)) acc) (f k) v = map (\<lambda>(k, v). (f k, v)) (dict_set acc k v)"
    by (rule dict_set_rename)
  with Cons.IH [OF Cons.prems, of "dict_set acc k v"] x show ?case by simp
qed

lemma dict_of_items_rename:
  "inj f \<Longrightarrow> dict_of_items (map (\<lambda>(k, v). (f k, v)) items) = map (\<lambda>(k, v). (f k, v)) (dict_of_items items)"
  using foldl_dict_set_rename [of f "[]" items] by (simp add: dict_of_items_def)

lemma inj_prefix: "inj (\<lambda>k. p @ k)"
  by (simp add: inj_def)

lemma flatten_items_prefixed:
  "parent_key \<noteq> [] \<Longrightarrow>
   flatten_items str d parent_key ''__'' =
     map (\<lambda>(k, v). (parent_key @ ''__'' @ k, v)) (flatten_spec_items str d)"
proof (induction str d parent_key "''__''" rule: flatten_items.induct)
  case (1 str parent_key)
  then show ?case by simp
next
  case (2 str k v d parent_key)
  have rest: "flatten_items str d parent_key ''__'' =
     map (\<lambda>(k, v). (parent_key @ ''__'' @ k, v)) (flatten_spec_items str d)"
    using "2.hyps"(2) "2.prems" by simp
  show ?case
  proof (cases v)
    case (JObj m)
    have nk: "new_key parent_key ''__'' k = parent_key @ ''__'' @ k"
      using "2.prems" by (simp add: new_key_def)
    have "flatten_items str m (parent_key @ ''__'' @ k) ''__'' =
       map (\<lambda>(k', v). ((parent_key @ ''__'' @ k) @ ''__'' @ k', v)) (flatten_spec_items str m)"
      using "2.hyps"(1) [OF JObj] nk by simp
    then have "dict_of_items (flatten_items str m (parent_key @ ''__'' @ k) ''__'') =
       map (\<lambda>(k', v). ((parent_key @ ''__'' @ k) @ ''__'' @ k', v)) (dict_of_items (flatten_spec_items str m))"
      using dict_of_items_rename [OF inj_prefix, of "(parent_key @ ''__'' @ k) @ ''__''" "flatten_spec_items str m"]
      by simp
    with JObj nk rest show ?thesis by (simp add: split_beta)
  qed (use rest "2.prems" in \<open>simp_all add: new_key_def str_if_list_def\<close>)
qed

lemma flatten_items_top:
  "\<forall>m. ('''', JObj m) \<notin> set d \<Longrightarrow> flatten_items str d [] ''__'' = flatten_spec_items str d"
proof (induction d)
  case Nil
  then show ?case by simp
next
  case (Cons x d)
  obtain k v where x: "x = (k, v)" by (cases x)
  from Cons have rest: "flatten_items str d [] ''__'' = flatten_spec_items str d" by simp
  show ?case
  proof (cases v)
    case (JObj m)
    with Cons.prems x have "k \<noteq> []" by auto
    then have "dict_of_items (flatten_items str m k ''__'') =
       map (\<lambda>(k', v). (k @ ''__'' @ k', v)) (dict_of_items (flatten_spec_items str m))"
      using dict_of_items_rename [OF inj_prefix, of "k @ ''__''" "flatten_spec_items str m"]
      by (simp add: flatten_items_prefixed)
    with JObj x rest show ?thesis by (simp add: new_key_def)
  qed (use x rest in \<open>simp_all add: new_key_def str_if_list_def\<close>)
qed

lemma dict_set_fresh: "k \<notin> fst ` set d \<Longrightarrow> dict_set d k v = d @ [(k, v)]"
  by (induction d k v rule: dict_set.induct) auto

lemma foldl_dict_set_distinct:
  "distinct (map fst (acc @ items)) \<Longrightarrow> foldl (\<lambda>d (k, v). dict_set d k v) acc items = acc @ items"
proof (induction items arbitrary: acc)
  case Nil
  then show ?case by simp
next
  case (Cons x xs)
  obtain k v where x: "x = (k, v)" by (cases x)
  with Cons.prems have "k \<notin> fst ` set acc" by auto
  then have "dict_set acc k v = acc @ [(k, v)]" by (rule dict_set_fresh)
  with Cons.IH [of "acc @ [x]"] Cons.prems x show ?case by simp
qed

lemma dict_of_items_distinct: "distinct (map fst items) \<Longrightarrow> dict_of_items items = items"
  using foldl_dict_set_distinct [of "[]" items] by (simp add: dict_of_items_def)

lemma keys_dict_set:
  "map fst (dict_set d k v) = (if k \<in> fst ` set d then map fst d else map fst d @ [k])"
  by (induction d k v rule: dict_set.induct) auto

lemma distinct_foldl_dict_set:
  "distinct (map fst acc) \<Longrightarrow> distinct (map fst (foldl (\<lambda>d (k, v). dict_set d k v) acc items))"
  by (induction items arbitrary: acc) (auto simp: keys_dict_set split_beta)

lemma distinct_dict_of_items: "distinct (map fst (dict_of_items items))"
  by (simp add: dict_of_items_def distinct_foldl_dict_set)

lemma flatten_items_flat:
  "\<forall>k m. (k, JObj m) \<notin> set d \<Longrightarrow>
   flatten_items str d [] sep = map (\<lambda>(k, v). (k, case v of JList xs \<Rightarrow> JStr (str v) | _ \<Rightarrow> v)) d"
proof (induction d)
  case Nil
  then show ?case by simp
next
  case (Cons x d)
  obtain k v where x: "x = (k, v)" by (cases x)
  from Cons have "flatten_items str d [] sep = map (\<lambda>(k, v). (k, case v of JList xs \<Rightarrow> JStr (str v) | _ \<Rightarrow> v)) d"
    by simp
  with Cons.prems x show ?case by (cases v) (auto simp: new_key_def str_if_list_def)
qed

section \<open>Runs over valid inputs\<close>








lemma run_loop_returns:
  "valid_input E (schemas L) messages \<Longrightarrow> validators L = schemas L \<Longrightarrow>
     \<exists>fs' L'. run_loop E out L fs messages = (fs', Inr L')"
proof (induction messages arbitrary: L fs)
  case Nil
  then show ?case by simp
next
  case (Cons m ms)
  show ?case
  proof (cases m)
    case (RECORD stream rec)
    with Cons.prems obtain schema where
      sch: "schemas L stream = Some schema" "validators L stream = Some schema"
      and ok: "conforms E schema (JObj rec)" and valid: "valid_input E (schemas L) ms"
      by (auto split: option.splits)
    obtain h where "choose_header L fs stream (output_filename E out stream)
        (flatten (str_of E) rec [] ''__'') = Inr h"
      using choose_header_total by blast
    with sch ok obtain fs1 L1 where
      step: "persist_record E out L fs stream rec = (fs1, Inr L1)"
      and same: "schemas L1 = schemas L" "validators L1 = validators L"
      by (simp add: persist_record_def Let_def)
    with valid Cons.prems(2) Cons.IH [of L1 fs1] RECORD show ?thesis by simp
  next
    case (STATE v)
    with Cons.prems Cons.IH [of "L\<lparr>state := v\<rparr>" fs] show ?thesis by simp
  next
    case (SCHEMA s schema kp)
    define L1 where "L1 = L\<lparr>schemas := (schemas L)(s \<mapsto> schema),
        validators := (validators L)(s \<mapsto> schema),
        key_properties := (key_properties L)(s \<mapsto> kp)\<rparr>"
    from Cons.prems SCHEMA have "valid_input E (schemas L1) ms" "validators L1 = schemas L1"
      by (simp_all add: L1_def)
    from Cons.IH [OF this, of fs] SCHEMA show ?thesis by (simp add: L1_def)
  next
    case (OTHER t)
    with Cons.prems Cons.IH [of L fs] show ?thesis by simp
  next
    case UNPARSEABLE
    with Cons.prems show ?thesis by simp
  qed
qed

section \<open>Checkpoint\<close>

lemma checkpoint_of_examples:
  "checkpoint_of [STATE S1, RECORD stream r1, STATE S2] = S2"
  "checkpoint_of [RECORD stream r1, STATE S1] = S1"
  "checkpoint_of [STATE S1, RECORD stream r1] = JNull"
  by (simp_all add: checkpoint_of_def after_last_record_def is_record_def)

text \<open>
  C2. The run over a valid input returns the checkpoint of the input: the value of the
  last \<^verbatim>\<open>STATE\<close> message that no \<^verbatim>\<open>RECORD\<close> message follows, and none when no \<^verbatim>\<open>STATE\<close>
  occurred or a \<^verbatim>\<open>RECORD\<close> followed the last one. Whatever the input, a run that returns,
  returns this value.
\<close>

theorem checkpoint_semantics:
  "(valid_input E Map.empty messages \<longrightarrow>
      (\<exists>fs'. persist_messages E fs messages output_folder = (fs', Inr (checkpoint_of messages))))
   \<and> (\<forall>fs' v. persist_messages E fs messages output_folder = (fs', Inr v) \<longrightarrow>
        v = checkpoint_of messages)"
proof -
  have value_of: "v = checkpoint_of messages"
    if a: "persist_messages E fs messages output_folder = (fs', Inr v)" for fs' v
  proof -
    from a obtain L' where
      r: "run_loop E output_folder initial fs messages = (fs', Inr L')" and v: "v = state L'"
      by (auto simp: persist_messages_def split: prod.splits sum.splits)
    have "state L' = checkpoint_from JNull messages"
      using run_loop_state [OF r] by (simp add: initial_def)
    then show ?thesis using v by (simp add: checkpoint_from_def checkpoint_of_def Let_def)
  qed
  have "\<exists>fs'. persist_messages E fs messages output_folder = (fs', Inr (checkpoint_of messages))"
    if "valid_input E Map.empty messages"
  proof -
    from that have "valid_input E (schemas initial) messages" "validators initial = schemas initial"
      by (simp_all add: initial_def)
    from run_loop_returns [OF this] obtain fs' L' where
      "run_loop E output_folder initial fs messages = (fs', Inr L')" by blast
    then have p: "persist_messages E fs messages output_folder = (fs', Inr (state L'))"
      by (simp add: persist_messages_def)
    from value_of [OF p] p show ?thesis by auto
  qed
  with value_of show ?thesis by blast
qed

theorem checkpoint_semantics_witness:
  "valid_input example_env Map.empty
     [SCHEMA ''s'' (JObj []) (JList []), STATE (JInt 1), RECORD ''s'' [(''a'', JStr ''x'')],
      STATE (JInt 2)]
   \<and> snd (persist_messages example_env Map.empty
     [SCHEMA ''s'' (JObj []) (JList []), STATE (JInt 1), RECORD ''s'' [(''a'', JStr ''x'')],
      STATE (JInt 2)] ''out'') = Inr (JInt 2)
   \<and> valid_input example_env Map.empty
     [SCHEMA ''s'' (JObj []) (JList []), RECORD ''s'' [(''a'', JStr ''x'')], STATE (JInt 1)]
   \<and> snd (persist_messages example_env Map.empty
     [SCHEMA ''s'' (JObj []) (JList []), RECORD ''s'' [(''a'', JStr ''x'')], STATE (JInt 1)]
     ''out'') = Inr (JInt 1)
   \<and> valid_input example_env Map.empty
     [SCHEMA ''s'' (JObj []) (JList []), STATE (JInt 1), RECORD ''s'' [(''a'', JStr ''x'')]]
   \<and> snd (persist_messages example_env Map.empty
     [SCHEMA ''s'' (JObj []) (JList []), STATE (JInt 1), RECORD ''s'' [(''a'', JStr ''x'')]]
     ''out'') = Inr JNull"
proof -
  have h1: "valid_input example_env Map.empty
     [SCHEMA ''s'' (JObj []) (JList []), STATE (JInt 1), RECORD ''s'' [(''a'', JStr ''x'')],
      STATE (JInt 2)]"
    by (simp add: example_env_def)
  have h2: "valid_input example_env Map.empty
     [SCHEMA ''s'' (JObj []) (JList []), RECORD ''s'' [(''a'', JStr ''x'')], STATE (JInt 1)]"
    by (simp add: example_env_def)
  have h3: "valid_input example_env Map.empty
     [SCHEMA ''s'' (JObj []) (JList []), STATE (JInt 1), RECORD ''s'' [(''a'', JStr ''x'')]]"
    by (simp add: example_env_def)
  have c: "checkpoint_of
     [SCHEMA ''s'' (JObj []) (JList []), STATE (JInt 1), RECORD ''s'' [(''a'', JStr ''x'')],
      STATE (JInt 2)] = JInt 2"
    "checkpoint_of
     [SCHEMA ''s'' (JObj []) (JList []), RECORD ''s'' [(''a'', JStr ''x'')], STATE (JInt 1)]
      = JInt 1"
    "checkpoint_of
     [SCHEMA ''s'' (JObj []) (JList []), STATE (JInt 1), RECORD ''s'' [(''a'', JStr ''x'')]]
      = JNull"
    by (simp_all add: checkpoint_of_def after_last_record_def is_record_def)
  from checkpoint_semantics [of example_env _ Map.empty "''out''"] h1 h2 h3 c
  show ?thesis by (metis snd_conv)
qed

section \<open>Rejected records\<close>

text \<open>
  C3. A \<^verbatim>\<open>RECORD\<close> for a stream for which the messages before it declare no schema
  aborts the run: unless an earlier message already raised, the run raises the
  missing-schema exception at that record, and in both cases the files are those left by
  the messages before it, so the record creates no file.
\<close>

theorem missing_schema_rejection:
  assumes "declared_schema pre stream = None"
  shows "persist_messages E fs (pre @ RECORD stream rec # post) output_folder =
     (case persist_messages E fs pre output_folder of
        (fs1, Inl e) \<Rightarrow> (fs1, Inl e)
      | (fs1, Inr v) \<Rightarrow> (fs1, Inl (MissingSchema stream)))"
proof (cases "run_loop E output_folder initial fs pre")
  case (Pair fs1 r)
  show ?thesis
  proof (cases r)
    case (Inl e)
    with Pair show ?thesis by (simp add: persist_messages_def run_loop_append)
  next
    case (Inr L)
    with Pair assms have "schemas L stream = None" by (simp add: run_loop_declared)
    then have "persist_record E output_folder L fs1 stream rec = (fs1, Inl (MissingSchema stream))"
      by (simp add: persist_record_def)
    with Pair Inr show ?thesis by (simp add: persist_messages_def run_loop_append)
  qed
qed

theorem missing_schema_rejection_witness:
  "declared_schema [SCHEMA ''users'' (JObj []) (JList []), STATE (JInt 1)] ''orders'' = None
   \<and> persist_messages example_env Map.empty
        ([SCHEMA ''users'' (JObj []) (JList []), STATE (JInt 1)]
         @ RECORD ''orders'' [(''id'', JInt 7)] # [STATE (JInt 2)]) ''out''
     = (Map.empty, Inl (MissingSchema ''orders''))"
proof -
  have h: "declared_schema [SCHEMA ''users'' (JObj []) (JList []), STATE (JInt 1)] ''orders'' = None"
    by (simp add: declared_schema_def)
  from missing_schema_rejection [OF h, of example_env Map.empty "[(''id'', JInt 7)]" "[STATE (JInt 2)]" "''out''"] h
  show ?thesis by (simp add: persist_messages_def initial_def)
qed

text \<open>
  C4. A \<^verbatim>\<open>RECORD\<close> whose record does not conform to the schema declared for its stream
  aborts the run with a validation error before anything is written: unless an earlier
  message already raised, the run raises \<^verbatim>\<open>ValidationError\<close> at that record, and the files
  are those left by the messages before it.
\<close>

theorem validation_rejection:
  assumes "declared_schema pre stream = Some schema"
    and "\<not> conforms E schema (JObj rec)"
  shows "persist_messages E fs (pre @ RECORD stream rec # post) output_folder =
     (case persist_messages E fs pre output_folder of
        (fs1, Inl e) \<Rightarrow> (fs1, Inl e)
      | (fs1, Inr v) \<Rightarrow> (fs1, Inl ValidationError))"
proof (cases "run_loop E output_folder initial fs pre")
  case (Pair fs1 r)
  show ?thesis
  proof (cases r)
    case (Inl e)
    with Pair show ?thesis by (simp add: persist_messages_def run_loop_append)
  next
    case (Inr L)
    with Pair assms have "schemas L stream = Some schema" "validators L stream = Some schema"
      by (simp_all add: run_loop_declared)
    with assms(2) have "persist_record E output_folder L fs1 stream rec = (fs1, Inl ValidationError)"
      by (simp add: persist_record_def)
    with Pair Inr show ?thesis by (simp add: persist_messages_def run_loop_append)
  qed
qed

theorem validation_rejection_witness:
  "declared_schema [SCHEMA ''s'' (JObj [(''type'', JStr ''integer'')]) (JList [])] ''s''
     = Some (JObj [(''type'', JStr ''integer'')])
   \<and> \<not> conforms example_env (JObj [(''type'', JStr ''integer'')]) (JObj [(''a'', JStr ''x'')])
   \<and> persist_messages example_env Map.empty
        ([SCHEMA ''s'' (JObj [(''type'', JStr ''integer'')]) (JList [])]
         @ RECORD ''s'' [(''a'', JStr ''x'')] # []) ''out''
     = (Map.empty, Inl ValidationError)"
proof -
  have h1: "declared_schema [SCHEMA ''s'' (JObj [(''type'', JStr ''integer'')]) (JList [])] ''s''
     = Some (JObj [(''type'', JStr ''integer'')])"
    by (simp add: declared_schema_def)
  have h2: "\<not> conforms example_env (JObj [(''type'', JStr ''integer'')]) (JObj [(''a'', JStr ''x'')])"
    by (simp add: example_env_def)
  from validation_rejection [OF h1 h2, of Map.empty "[]" "''out''"] h1 h2
  show ?thesis by (simp add: persist_messages_def initial_def)
qed

section \<open>Schema declarations\<close>

text \<open>
  C9. A \<^verbatim>\<open>SCHEMA\<close> message overwrites the schema, the validator and the key properties
  stored for its stream and nothing else: the entries of the other streams, all headers,
  the checkpoint and the files stay as they are.
\<close>

theorem schema_frame:
  "\<exists>L'. persist_message E output_folder L fs (SCHEMA stream schema kp) = (fs, Inr L')
     \<and> schemas L' = (schemas L)(stream \<mapsto> schema)
     \<and> validators L' = (validators L)(stream \<mapsto> schema)
     \<and> key_properties L' = (key_properties L)(stream \<mapsto> kp)
     \<and> headers L' = headers L
     \<and> state L' = state L"
  by simp

text \<open>
  C10. The key properties of the \<^verbatim>\<open>SCHEMA\<close> messages influence nothing a caller can
  see: two inputs that differ only in them leave the same files and return the same
  checkpoint, or raise the same exception.
\<close>

theorem key_properties_noninterference:
  assumes "list_all2 same_but_key_properties messages messages'"
  shows "persist_messages E fs messages' output_folder = persist_messages E fs messages output_folder"
proof -
  have "initial\<lparr>key_properties := key_properties initial\<rparr> = initial" by simp
  with run_loop_kp [OF assms, where E=E and out=output_folder and L=initial and k="key_properties initial" and fs=fs]
  show ?thesis by (simp add: persist_messages_def observable_def)
qed

theorem key_properties_noninterference_witness:
  "list_all2 same_but_key_properties
     [SCHEMA ''s'' (JObj []) (JList [JStr ''id'']), RECORD ''s'' [(''id'', JStr ''7'')], STATE (JInt 1)]
     [SCHEMA ''s'' (JObj []) (JList []), RECORD ''s'' [(''id'', JStr ''7'')], STATE (JInt 1)]
   \<and> persist_messages example_env Map.empty
       [SCHEMA ''s'' (JObj []) (JList []), RECORD ''s'' [(''id'', JStr ''7'')], STATE (JInt 1)] ''out''
     = persist_messages example_env Map.empty
       [SCHEMA ''s'' (JObj []) (JList [JStr ''id'']), RECORD ''s'' [(''id'', JStr ''7'')], STATE (JInt 1)] ''out''"
proof -
  have h: "list_all2 same_but_key_properties
     [SCHEMA ''s'' (JObj []) (JList [JStr ''id'']), RECORD ''s'' [(''id'', JStr ''7'')], STATE (JInt 1)]
     [SCHEMA ''s'' (JObj []) (JList []), RECORD ''s'' [(''id'', JStr ''7'')], STATE (JInt 1)]"
    by simp
  from key_properties_noninterference [OF h] h show ?thesis by blast
qed

section \<open>Appending a row\<close>

text \<open>
  C6. A \<^verbatim>\<open>RECORD\<close> that has a declared schema and conforms to it is appended without an
  error. The header row is written first exactly when the file was empty (absent or of
  size zero) before the append. The data row holds, for each column of the header used,
  in order, the text of the flattened record's value for that column, and the empty
  string where the record has no such key; keys of the record outside the header leave
  no trace.
\<close>

theorem append_row_semantics:
  assumes "run_loop E output_folder initial fs pre = (fs1, Inr L)"
    and "declared_schema pre stream = Some schema"
    and "conforms E schema (JObj rec)"
  shows "\<exists>h. run_loop E output_folder initial fs (pre @ [RECORD stream rec]) =
     (fs1(output_filename E output_folder stream \<mapsto>
        (case fs1 (output_filename E output_folder stream) of None \<Rightarrow> [] | Some rows \<Rightarrow> rows)
        @ (if file_is_empty fs1 (output_filename E output_folder stream) then [h] else [])
        @ [map (\<lambda>column. case map_of (flatten (str_of E) rec [] ''__'') column of
                    Some v \<Rightarrow> csv_field (str_of E) v | None \<Rightarrow> []) h]),
      Inr (L\<lparr>headers := (headers L)(stream \<mapsto> h), state := JNull\<rparr>))"
proof -
  from assms have sv: "schemas L stream = Some schema" "validators L stream = Some schema"
    by (simp_all add: run_loop_declared)
  obtain h where h: "choose_header L fs1 stream (output_filename E output_folder stream)
      (flatten (str_of E) rec [] ''__'') = Inr h"
    using choose_header_total by blast
  have row: "writerow (str_of E) h (flatten (str_of E) rec [] ''__'') =
      map (\<lambda>column. case map_of (flatten (str_of E) rec [] ''__'') column of
                    Some v \<Rightarrow> csv_field (str_of E) v | None \<Rightarrow> []) h"
    by (auto simp: writerow_def dict_get_def csv_field_def split: option.splits)
  have "persist_record E output_folder L fs1 stream rec =
     (fs1(output_filename E output_folder stream \<mapsto>
        (case fs1 (output_filename E output_folder stream) of None \<Rightarrow> [] | Some rows \<Rightarrow> rows)
        @ (if file_is_empty fs1 (output_filename E output_folder stream) then [h] else [])
        @ [map (\<lambda>column. case map_of (flatten (str_of E) rec [] ''__'') column of
                    Some v \<Rightarrow> csv_field (str_of E) v | None \<Rightarrow> []) h]),
      Inr (L\<lparr>headers := (headers L)(stream \<mapsto> h), state := JNull\<rparr>))"
    using sv assms(3) h
    by (simp add: persist_record_def Let_def append_rows_def writeheader_fieldnames row)
  with assms(1) show ?thesis by (auto simp: run_loop_append)
qed

theorem append_row_semantics_witness:
  "run_loop example_env ''out'' initial [''out/s--2024-01-01.csv'' \<mapsto> [[''a'', ''z'']]]
      [SCHEMA ''s'' (JObj []) (JList [])]
    = ([''out/s--2024-01-01.csv'' \<mapsto> [[''a'', ''z'']]],
       Inr (initial\<lparr>schemas := [''s'' \<mapsto> JObj []], validators := [''s'' \<mapsto> JObj []],
          key_properties := [''s'' \<mapsto> JList []]\<rparr>))
   \<and> declared_schema [SCHEMA ''s'' (JObj []) (JList [])] ''s'' = Some (JObj [])
   \<and> conforms example_env (JObj []) (JObj [(''b'', JStr ''2''), (''a'', JStr ''1'')])
   \<and> fst (run_loop example_env ''out'' initial [''out/s--2024-01-01.csv'' \<mapsto> [[''a'', ''z'']]]
        ([SCHEMA ''s'' (JObj []) (JList [])] @ [RECORD ''s'' [(''b'', JStr ''2''), (''a'', JStr ''1'')]]))
       ''out/s--2024-01-01.csv''
     = Some [[''a'', ''z''], [''1'', []]]"
proof -
  have h1: "run_loop example_env ''out'' initial [''out/s--2024-01-01.csv'' \<mapsto> [[''a'', ''z'']]]
      [SCHEMA ''s'' (JObj []) (JList [])]
    = ([''out/s--2024-01-01.csv'' \<mapsto> [[''a'', ''z'']]],
       Inr (initial\<lparr>schemas := [''s'' \<mapsto> JObj []], validators := [''s'' \<mapsto> JObj []],
          key_properties := [''s'' \<mapsto> JList []]\<rparr>))"
    by (simp add: initial_def)
  have h2: "declared_schema [SCHEMA ''s'' (JObj []) (JList [])] ''s'' = Some (JObj [])"
    by (simp add: declared_schema_def)
  have h3: "conforms example_env (JObj []) (JObj [(''b'', JStr ''2''), (''a'', JStr ''1'')])"
    by (simp add: example_env_def)
  from append_row_semantics [OF h1 h2 h3] h1 h2 h3
  show ?thesis by (auto simp: eval_defs)
qed

section \<open>Headers\<close>

text \<open>
  C7. When the first \<^verbatim>\<open>RECORD\<close> of a run for a stream finds its output file with a row
  in it, the header used for that record is the first row of the file, whatever the keys
  of the record are, and the keys of the flattened record only when that first row is
  empty; no header row is written.
\<close>

theorem rerun_continuation:
  assumes "run_loop E output_folder initial fs pre = (fs1, Inr L)"
    and "\<forall>rec'. RECORD stream rec' \<notin> set pre"
    and "declared_schema pre stream = Some schema"
    and "conforms E schema (JObj rec)"
    and "fs1 (output_filename E output_folder stream) = Some (first_line # rest)"
  shows "run_loop E output_folder initial fs (pre @ [RECORD stream rec]) =
     (let flattened_record = flatten (str_of E) rec [] ''__'';
          h = (if first_line \<noteq> [] then first_line else dict_keys flattened_record)
      in (fs1(output_filename E output_folder stream \<mapsto>
            (first_line # rest) @ [writerow (str_of E) h flattened_record]),
          Inr (L\<lparr>headers := (headers L)(stream \<mapsto> h), state := JNull\<rparr>)))"
proof -
  from assms have sv: "schemas L stream = Some schema" "validators L stream = Some schema"
    by (simp_all add: run_loop_declared)
  from run_loop_headers_unset [OF assms(1,2)] have hd: "headers L stream = None"
    by (simp add: initial_def)
  have "persist_record E output_folder L fs1 stream rec =
     (let flattened_record = flatten (str_of E) rec [] ''__'';
          h = (if first_line \<noteq> [] then first_line else dict_keys flattened_record)
      in (fs1(output_filename E output_folder stream \<mapsto>
            (first_line # rest) @ [writerow (str_of E) h flattened_record]),
          Inr (L\<lparr>headers := (headers L)(stream \<mapsto> h), state := JNull\<rparr>)))"
    using sv hd assms(4,5)
    by (simp add: persist_record_def Let_def append_rows_def choose_header_def
        file_is_empty_def next_row_def)
  with assms(1) show ?thesis by (simp add: run_loop_append Let_def)
qed

theorem rerun_continuation_witness:
  "run_loop example_env ''out'' initial [''out/s--2024-01-01.csv'' \<mapsto> [[''a'', ''z'']]]
      [SCHEMA ''s'' (JObj []) (JList [])]
    = ([''out/s--2024-01-01.csv'' \<mapsto> [[''a'', ''z'']]],
       Inr (initial\<lparr>schemas := [''s'' \<mapsto> JObj []], validators := [''s'' \<mapsto> JObj []],
          key_properties := [''s'' \<mapsto> JList []]\<rparr>))
   \<and> (\<forall>rec'. RECORD ''s'' rec' \<notin> set [SCHEMA ''s'' (JObj []) (JList [])])
   \<and> declared_schema [SCHEMA ''s'' (JObj []) (JList [])] ''s'' = Some (JObj [])
   \<and> conforms example_env (JObj []) (JObj [(''b'', JStr ''2''), (''a'', JStr ''1'')])
   \<and> [''out/s--2024-01-01.csv'' \<mapsto> [[''a'', ''z'']]] (output_filename example_env ''out'' ''s'')
       = Some ([''a'', ''z''] # [])
   \<and> fst (run_loop example_env ''out'' initial [''out/s--2024-01-01.csv'' \<mapsto> [[''a'', ''z'']]]
        ([SCHEMA ''s'' (JObj []) (JList [])] @ [RECORD ''s'' [(''b'', JStr ''2''), (''a'', JStr ''1'')]]))
       ''out/s--2024-01-01.csv''
     = Some [[''a'', ''z''], [''1'', []]]"
proof -
  have h1: "run_loop example_env ''out'' initial [''out/s--2024-01-01.csv'' \<mapsto> [[''a'', ''z'']]]
      [SCHEMA ''s'' (JObj []) (JList [])]
    = ([''out/s--2024-01-01.csv'' \<mapsto> [[''a'', ''z'']]],
       Inr (initial\<lparr>schemas := [''s'' \<mapsto> JObj []], validators := [''s'' \<mapsto> JObj []],
          key_properties := [''s'' \<mapsto> JList []]\<rparr>))"
    by (simp add: initial_def)
  have h2: "\<forall>rec'. RECORD ''s'' rec' \<notin> set [SCHEMA ''s'' (JObj []) (JList [])]"
    by simp
  have h3: "declared_schema [SCHEMA ''s'' (JObj []) (JList [])] ''s'' = Some (JObj [])"
    by (simp add: declared_schema_def)
  have h4: "conforms example_env (JObj []) (JObj [(''b'', JStr ''2''), (''a'', JStr ''1'')])"
    by (simp add: example_env_def)
  have h5: "[''out/s--2024-01-01.csv'' \<mapsto> [[''a'', ''z'']]] (output_filename example_env ''out'' ''s'')
       = Some ([''a'', ''z''] # [])"
    by (simp add: eval_defs)
  from rerun_continuation [OF h1 h2 h3 h4 h5] h1 h2 h3 h4 h5
  show ?thesis by (simp add: eval_defs)
qed

text \<open>
  C1. The header is not stable. The second \<^verbatim>\<open>RECORD\<close> of a stream finds the stream in
  \<^verbatim>\<open>headers\<close>, takes the \<^verbatim>\<open>else\<close> branch of line 83 and stores the keys of its own
  flattened record: after a record with the key \<^verbatim>\<open>a\<close> has fixed the header \<^verbatim>\<open>a\<close>, a
  record with the key \<^verbatim>\<open>b\<close> is written under the header \<^verbatim>\<open>b\<close>, so its value lands in
  column \<^verbatim>\<open>a\<close> of the file, and \<^verbatim>\<open>headers\<close> holds \<^verbatim>\<open>b\<close> afterwards.
\<close>

theorem header_replaced_by_later_record:
  "run_loop example_env ''out'' initial Map.empty
     [SCHEMA ''s'' (JObj []) (JList []),
      RECORD ''s'' [(''a'', JStr ''1'')],
      RECORD ''s'' [(''b'', JStr ''2'')]] =
   ([''out/s--2024-01-01.csv'' \<mapsto> [[''a''], [''1''], [''2'']]],
    Inr (initial\<lparr>schemas := [''s'' \<mapsto> JObj []], validators := [''s'' \<mapsto> JObj []],
      key_properties := [''s'' \<mapsto> JList []], headers := [''s'' \<mapsto> [''b'']]\<rparr>))"
  by (simp add: eval_defs)

section \<open>The flattener against its description\<close>

text \<open>
  C8, as amended. For every mapping in which no top-level entry has the empty string as
  its key and a mapping as its value, \<^verbatim>\<open>flatten\<close> returns what the specification
  describes: keys that are the nesting paths joined by \<^verbatim>\<open>__\<close>, nested mappings
  flattened recursively and merged in under prefixed keys, lists as their strings, other
  values unchanged, in the order of iteration. In particular
  \<^verbatim>\<open>{"a": {"b": 1, "c": 2}}\<close> becomes \<^verbatim>\<open>{"a__b": 1, "a__c": 2}\<close>, and a mapping
  with no nested mapping comes back with its lists as strings and everything else as it
  was.
\<close>

theorem flatten_reference:
  "((\<forall>m. ('''', JObj m) \<notin> set d) \<longrightarrow> flatten str d [] ''__'' = flatten_spec str d)
   \<and> flatten str [(''a'', JObj [(''b'', JInt 1), (''c'', JInt 2)])] [] ''__''
       = [(''a__b'', JInt 1), (''a__c'', JInt 2)]
   \<and> (distinct (map fst flat) \<and> (\<forall>k m. (k, JObj m) \<notin> set flat) \<longrightarrow>
        flatten str flat [] ''__''
          = map (\<lambda>(k, v). (k, case v of JList xs \<Rightarrow> JStr (str v) | _ \<Rightarrow> v)) flat)"
proof (intro conjI impI)
  assume "\<forall>m. ('''', JObj m) \<notin> set d"
  then show "flatten str d [] ''__'' = flatten_spec str d"
    by (simp add: flatten_def flatten_spec_def flatten_items_top)
next
  show "flatten str [(''a'', JObj [(''b'', JInt 1), (''c'', JInt 2)])] [] ''__''
       = [(''a__b'', JInt 1), (''a__c'', JInt 2)]"
    by (simp add: flatten_def dict_of_items_def new_key_def str_if_list_def)
next
  assume a: "distinct (map fst flat) \<and> (\<forall>k m. (k, JObj m) \<notin> set flat)"
  then have "distinct (map fst (map (\<lambda>(k, v). (k, case v of JList xs \<Rightarrow> JStr (str v) | _ \<Rightarrow> v)) flat))"
    by (simp add: comp_def split_beta)
  with a show "flatten str flat [] ''__''
      = map (\<lambda>(k, v). (k, case v of JList xs \<Rightarrow> JStr (str v) | _ \<Rightarrow> v)) flat"
    by (simp add: flatten_def flatten_items_flat dict_of_items_distinct)
qed

theorem flatten_reference_witness:
  "(\<forall>m. ('''', JObj m) \<notin> set [(''a'', JObj [(''b'', JInt 1), (''c'', JList [JInt 2])]), (''x'', JNull)])
   \<and> flatten (str_of example_env)
        [(''a'', JObj [(''b'', JInt 1), (''c'', JList [JInt 2])]), (''x'', JNull)] [] ''__''
      = [(''a__b'', JInt 1), (''a__c'', JStr ''[]''), (''x'', JNull)]
   \<and> distinct (map fst [(''p'', JList [JInt 2]), (''q'', JInt 3)])
   \<and> (\<forall>k m. (k, JObj m) \<notin> set [(''p'', JList [JInt 2]), (''q'', JInt 3)])
   \<and> flatten (str_of example_env) [(''p'', JList [JInt 2]), (''q'', JInt 3)] [] ''__''
      = [(''p'', JStr ''[]''), (''q'', JInt 3)]"
proof -
  have h1: "\<forall>m. ('''', JObj m) \<notin> set [(''a'', JObj [(''b'', JInt 1), (''c'', JList [JInt 2])]), (''x'', JNull)]"
    by simp
  have h2: "distinct (map fst [(''p'', JList [JInt 2]), (''q'', JInt 3)])
     \<and> (\<forall>k m. (k, JObj m) \<notin> set [(''p'', JList [JInt 2]), (''q'', JInt 3)])"
    by simp
  from flatten_reference [of "[(''a'', JObj [(''b'', JInt 1), (''c'', JList [JInt 2])]), (''x'', JNull)]"
      "str_of example_env" "[(''p'', JList [JInt 2]), (''q'', JInt 3)]"] h1 h2
  have "flatten (str_of example_env)
        [(''a'', JObj [(''b'', JInt 1), (''c'', JList [JInt 2])]), (''x'', JNull)] [] ''__''
      = flatten_spec (str_of example_env)
        [(''a'', JObj [(''b'', JInt 1), (''c'', JList [JInt 2])]), (''x'', JNull)]"
    and "flatten (str_of example_env) [(''p'', JList [JInt 2]), (''q'', JInt 3)] [] ''__''
      = map (\<lambda>(k, v). (k, case v of JList xs \<Rightarrow> JStr (str_of example_env v) | _ \<Rightarrow> v))
          [(''p'', JList [JInt 2]), (''q'', JInt 3)]"
    by blast+
  then show ?thesis
    by (simp add: flatten_spec_def dict_of_items_def example_env_def)
qed

text \<open>
  The claim as it stands fails on an empty top-level key: \<^verbatim>\<open>if parent_key\<close> takes the
  empty prefix for no prefix, so \<^verbatim>\<open>{"": {"b": 1}}\<close> becomes \<^verbatim>\<open>{"b": 1}\<close>, whose key is
  not the path joined by \<^verbatim>\<open>__\<close>.
\<close>

theorem flatten_empty_key_counterexample:
  "flatten (str_of example_env) [('''', JObj [(''b'', JInt 1)])] [] ''__'' = [(''b'', JInt 1)]
   \<and> flatten_spec (str_of example_env) [('''', JObj [(''b'', JInt 1)])] = [(''__b'', JInt 1)]
   \<and> ''b'' \<noteq> '''' @ ''__'' @ ''b''"
  by (simp add: flatten_def flatten_spec_def dict_of_items_def new_key_def str_if_list_def)

section \<open>Rows per file\<close>

lemma slashed_names_not_plain:
  "\<not> plain_output example_env ''out'' ''./a''"
  "\<not> plain_output example_env ''out'' ''x/y''"
  "\<not> plain_output example_env ''/tmp'' ''/tmp/t''"
  by (simp_all add: plain_output_def plain_file_name_def)




end
